theory Spec2Isabelle
  imports Main "HOL-Library.Word" "HOL-Library.Multiset"
begin

section \<open>The coin maximiser (\<^verbatim>\<open>src/main.cpp\<close>)\<close>

text \<open>
  The program chooses coins (with repetition) from a catalogue so that their weight stays
  within a budget and their value is as large as the search finds. This theory embeds
  \<^verbatim>\<open>hash\<close>, \<^verbatim>\<open>copy_combination\<close>, \<^verbatim>\<open>best_value\<close> and
  \<^verbatim>\<open>find_best_combination\<close> of \<^verbatim>\<open>src/main.cpp\<close> and proves properties of them.

  Conventions of the embedding:
  \<^item> the \<^verbatim>\<open>int\<close> fields of a coin and the remaining weight are HOL integers, meant to
    hold values of a 32-bit \<^verbatim>\<open>int\<close>; the sum that \<^verbatim>\<open>best_value\<close> accumulates in an
    \<^verbatim>\<open>int\<close> wraps around as the machine's addition does;
  \<^item> an uncaught exception is the value \<open>Inl e\<close>, a normal return is \<open>Inr r\<close>;
  \<^item> the recursion of \<^verbatim>\<open>find_best_combination\<close> need not end (a catalogue coin of weight
    zero recurses for ever), so it carries fuel: the call depth still allowed. \<open>None\<close> says
    the fuel ran out;
  \<^item> the function-local \<^verbatim>\<open>static std::map cache\<close> is a state threaded through the calls.
\<close>

subsection \<open>Coins\<close>

text \<open>\<^verbatim>\<open>class Coin { int value; int weight; }\<close>, and \<^verbatim>\<open>typedef std::vector<Coin> Coins\<close>.\<close>

record Coin =
  "value" :: int
  weight :: int

type_synonym Coins = "Coin list"

text \<open>
  The total value and the total weight of a combination, as the integers they are: the
  measures in which the properties are stated.
\<close>

definition value_sum :: "Coins \<Rightarrow> int" where
  "value_sum coins = sum_list (map value coins)"


text \<open>
  The addition of two \<^verbatim>\<open>int\<close>s as the machine performs it: the sum is reduced to 32 bits
  and read as a signed number.
\<close>

definition int_add :: "int \<Rightarrow> int \<Rightarrow> int" where
  "int_add a b = sint (word_of_int (a + b) :: 32 word)"

text \<open>
  Lines 189 to 192 of \<^verbatim>\<open>best_value\<close>: \<^verbatim>\<open>int total_value = 0\<close>, then
  \<^verbatim>\<open>total_value += static_cast<int>(coin)\<close> for each coin of the combination, where the
  cast of a coin is its value.
\<close>

definition total_value :: "Coins \<Rightarrow> int" where
  "total_value combination = foldl (\<lambda>subtotal coin. int_add subtotal (value coin)) 0 combination"

text \<open>\<^verbatim>\<open>copy_combination\<close> builds a new vector with a new \<^verbatim>\<open>Coin(value, weight)\<close> per element.\<close>

definition copy_combination :: "Coins \<Rightarrow> Coins" where
  "copy_combination coins = map (\<lambda>coin. \<lparr>value = value coin, weight = weight coin\<rparr>) coins"

subsection \<open>The per-coin hash\<close>

text \<open>
  What can go wrong in the program: \<open>OutOfRange\<close> is the exception \<^verbatim>\<open>std::out_of_range\<close>,
  \<open>Undefined\<close> an operation to which the language gives no result.
\<close>

datatype error = OutOfRange | Undefined

text \<open>The table \<^verbatim>\<open>value_to_prime\<close> of \<^verbatim>\<open>hash\<close>, in the order of the source.\<close>

definition value_to_prime :: "(int \<times> int) list" where
  "value_to_prime =
     [(0, 0), (1, 2), (2, 3), (5, 5), (10, 7), (20, 11), (50, 13), (100, 17), (200, 19)]"

text \<open>
  \<^verbatim>\<open>return value_to_prime.at(coin.value)\<close>: \<^verbatim>\<open>std::map::at\<close> throws
  \<^verbatim>\<open>std::out_of_range\<close> on a missing key, and nothing in the program catches it. The
  prime is returned as an \<^verbatim>\<open>unsigned long\<close>.
\<close>

definition hash :: "Coin \<Rightarrow> error + 64 word" where
  "hash coin =
     (case map_of value_to_prime (value coin) of
        None \<Rightarrow> Inl OutOfRange
      | Some p \<Rightarrow> Inr (word_of_int p))"

subsection \<open>The fingerprint\<close>

text \<open>
  Line 134 is \<^verbatim>\<open>unsigned long h = hash(coin) + std::pow(remaining_weight, 23)\<close>.
  \<^verbatim>\<open>std::pow\<close> on two \<^verbatim>\<open>int\<close>s returns a \<^verbatim>\<open>double\<close>, so the hash is converted to
  \<^verbatim>\<open>double\<close>, the sum is a \<^verbatim>\<open>double\<close> addition, and its result is converted to
  \<^verbatim>\<open>unsigned long\<close>.

  All the doubles that occur here are integers, so a double is modelled by the integer it
  stands for. \<open>round_double\<close> rounds an integer to the nearest one with a 53-bit
  significand, ties to even (the exponent range of a double is not reached: the 23rd power
  of a 32-bit \<^verbatim>\<open>int\<close> is below \<open>2 ^ 713\<close>). \<^verbatim>\<open>std::pow\<close> is taken to return the correctly
  rounded power; a C library may return a neighbouring double instead (for the powers of
  10, 20 and 40 the GNU library does). The two remaining weights at which a fingerprint is
  evaluated below are 6, whose power is a double, and 300.
\<close>

fun bitlen :: "nat \<Rightarrow> nat" where
  "bitlen n = (if n = 0 then 0 else Suc (bitlen (n div 2)))"

definition round_nat :: "nat \<Rightarrow> nat" where
  "round_nat n =
     (let e = bitlen n - 53; q = n div 2 ^ e; r = n mod 2 ^ e
      in if e = 0 then n
         else if 2 ^ e < 2 * r \<or> (2 * r = 2 ^ e \<and> odd q) then (q + 1) * 2 ^ e
         else q * 2 ^ e)"

definition round_double :: "int \<Rightarrow> int" where
  "round_double i = (if i < 0 then - int (round_nat (nat (- i))) else int (round_nat (nat i)))"

definition pow23 :: "int \<Rightarrow> int" where
  "pow23 remaining_weight = round_double (remaining_weight ^ 23)"

text \<open>
  The conversion of a double to \<^verbatim>\<open>unsigned long\<close> truncates; for a value outside the
  range of \<^verbatim>\<open>unsigned long\<close> the language leaves the result open. The parameter \<open>ub\<close>
  gives the result there, so that what is proved holds whatever the platform yields.
\<close>

definition to_ulong :: "(int \<Rightarrow> 64 word) \<Rightarrow> int \<Rightarrow> 64 word" where
  "to_ulong ub d = (if 0 \<le> d \<and> d < 2 ^ 64 then word_of_int d else ub d)"

definition fingerprint :: "(int \<Rightarrow> 64 word) \<Rightarrow> 64 word \<Rightarrow> int \<Rightarrow> 64 word" where
  "fingerprint ub p remaining_weight =
     to_ulong ub (round_double (round_double (uint p) + pow23 remaining_weight))"

subsection \<open>The comparator\<close>

text \<open>
  \<^verbatim>\<open>best_value\<close> sorts the (total value, combination) pairs with \<^verbatim>\<open>std::sort\<close> and the
  comparison \<^verbatim>\<open>value1 >= value2\<close>, and returns a copy of the front element.

  \<^verbatim>\<open>std::sort\<close> is library code. It is modelled by insertion sort, which is what the GNU
  library runs on a range of at most 16 elements (\<open>sort_threshold\<close>). A longer range is
  partitioned first, and with a comparison that is not a strict order the partition can
  leave the vector; the model does not cover that, so a property that depends on the sorted
  order is stated for at most \<open>sort_threshold\<close> elements. Each element \<open>x\<close> in turn is moved to the front when
  \<open>cmp x first\<close> holds, and otherwise moved left past every element \<open>y\<close> with \<open>cmp x y\<close>
  (the scan starts at the right end of the sorted prefix and cannot pass the first element,
  for which the comparison has just failed). The sort is not stable, and the comparison
  \<^verbatim>\<open>>=\<close> of the source is not a strict order: an element that ties with the front goes
  in front of it.
\<close>

definition sort_threshold :: nat where
  "sort_threshold = 16"

definition unguarded_linear_insert :: "('a \<Rightarrow> 'a \<Rightarrow> bool) \<Rightarrow> 'a list \<Rightarrow> 'a \<Rightarrow> 'a list" where
  "unguarded_linear_insert cmp prefix x =
     (let k = length (takeWhile (cmp x) (rev prefix))
      in take (length prefix - k) prefix @ x # drop (length prefix - k) prefix)"

definition insertion_step :: "('a \<Rightarrow> 'a \<Rightarrow> bool) \<Rightarrow> 'a list \<Rightarrow> 'a \<Rightarrow> 'a list" where
  "insertion_step cmp prefix x =
     (case prefix of
        [] \<Rightarrow> [x]
      | first # _ \<Rightarrow> if cmp x first then x # prefix else unguarded_linear_insert cmp prefix x)"

definition std_sort :: "('a \<Rightarrow> 'a \<Rightarrow> bool) \<Rightarrow> 'a list \<Rightarrow> 'a list" where
  "std_sort cmp xs = foldl (insertion_step cmp) [] xs"

text \<open>The lambda of lines 199 to 203.\<close>

definition value_ge :: "int \<times> Coins \<Rightarrow> int \<times> Coins \<Rightarrow> bool" where
  "value_ge val_comb1 val_comb2 = (fst val_comb1 \<ge> fst val_comb2)"

text \<open>
  \<^verbatim>\<open>best_value\<close>. \<^verbatim>\<open>front()\<close> of an empty vector has no defined result; the model returns
  \<open>Inl Undefined\<close> there (the only caller tests \<^verbatim>\<open>combinations.size() == 0\<close> first).
\<close>

definition best_value :: "Coins list \<Rightarrow> error + Coins" where
  "best_value combinations =
     (let total_value_and_combination =
            map (\<lambda>combination. (total_value combination, combination)) combinations
      in case std_sort value_ge total_value_and_combination of
           [] \<Rightarrow> Inl Undefined
         | front # _ \<Rightarrow> Inr (copy_combination (snd front)))"

subsection \<open>The search\<close>

text \<open>
  The cache maps a fingerprint to a stored result. In the source it is a function-local
  static, empty when the program starts.
\<close>

type_synonym cache = "64 word \<rightharpoonup> Coins option"

text \<open>
  \<^verbatim>\<open>find_best_combination\<close> (lines 125 to 180) with its \<^verbatim>\<open>for\<close> loop over \<^verbatim>\<open>options\<close>
  (lines 161 to 168) as the second function: \<open>todo\<close> is the part of \<^verbatim>\<open>options\<close> still to
  visit and \<open>combinations\<close> the vector built so far. The result of a call is \<open>None\<close> when the
  fuel is used up, \<open>Some (Inl e)\<close> for the exception \<open>e\<close>, and \<open>Some (Inr (result, cache))\<close>
  for the returned \<^verbatim>\<open>std::optional<Coins>\<close> with the cache as the call leaves it.

  The source looks the fingerprint up in the cache and returns a stored result on a hit;
  no statement of the function stores anything, so every branch hands the cache on as it
  got it.
\<close>

function find_best_combination ::
    "(int \<Rightarrow> 64 word) \<Rightarrow> nat \<Rightarrow> Coin \<Rightarrow> int \<Rightarrow> Coins \<Rightarrow> cache \<Rightarrow> (error + Coins option \<times> cache) option"
  and collect_combinations ::
    "(int \<Rightarrow> 64 word) \<Rightarrow> nat \<Rightarrow> Coins \<Rightarrow> int \<Rightarrow> Coins \<Rightarrow> cache \<Rightarrow> Coins list
      \<Rightarrow> (error + Coins list \<times> cache) option"
where
  "find_best_combination ub 0 coin remaining_weight options cache = None"
| "find_best_combination ub (Suc fuel) coin remaining_weight options cache =
     (case hash coin of
        Inl e \<Rightarrow> Some (Inl e)
      | Inr p \<Rightarrow>
          (case cache (fingerprint ub p remaining_weight) of
             Some cache_value \<Rightarrow> Some (Inr (cache_value, cache))
           | None \<Rightarrow>
               if weight coin > remaining_weight then Some (Inr (None, cache))
               else if weight coin = remaining_weight then Some (Inr (Some [coin], cache))
               else
                 (case collect_combinations ub fuel options (remaining_weight - weight coin)
                         options cache [] of
                    None \<Rightarrow> None
                  | Some (Inl e) \<Rightarrow> Some (Inl e)
                  | Some (Inr (combinations, cache')) \<Rightarrow>
                      if length combinations = 0 then Some (Inr (Some [coin], cache'))
                      else
                        (case best_value combinations of
                           Inl e \<Rightarrow> Some (Inl e)
                         | Inr coins \<Rightarrow> Some (Inr (Some (coins @ [coin]), cache'))))))"
| "collect_combinations ub fuel [] remaining_weight options cache combinations =
     Some (Inr (combinations, cache))"
| "collect_combinations ub fuel (next_coin # todo) remaining_weight options cache combinations =
     (case find_best_combination ub fuel next_coin remaining_weight options cache of
        None \<Rightarrow> None
      | Some (Inl e) \<Rightarrow> Some (Inl e)
      | Some (Inr (None, cache')) \<Rightarrow>
          collect_combinations ub fuel todo remaining_weight options cache' combinations
      | Some (Inr (Some combination, cache')) \<Rightarrow>
          collect_combinations ub fuel todo remaining_weight options cache'
            (combinations @ [copy_combination combination]))"
  by pat_completeness auto
termination
  by (relation "inv_image (less_than <*lex*> less_than)
        (\<lambda>x. case x of
           Inl (ub, fuel, coin, remaining_weight, options, cache) \<Rightarrow> (fuel, 0)
         | Inr (ub, fuel, todo, remaining_weight, options, cache, combinations) \<Rightarrow>
             (fuel, Suc (length todo)))") auto

text \<open>
  The program: \<^verbatim>\<open>main\<close> calls the search once, with the null coin \<^verbatim>\<open>Coin(0,0)\<close> and the
  cache as the program start left it.
\<close>

definition root :: Coin where
  "root = \<lparr>value = 0, weight = 0\<rparr>"

definition empty_cache :: cache where
  "empty_cache = Map.empty"

subsection \<open>The search without the cache\<close>

text \<open>
  The same two functions with the cache taken out: the lookup of line 135 always misses
  and no cache is handed on. Everything else, the call of \<^verbatim>\<open>hash\<close> included, is as in
  \<open>find_best_combination\<close>.
\<close>

function find_best_combination_uncached ::
    "nat \<Rightarrow> Coin \<Rightarrow> int \<Rightarrow> Coins \<Rightarrow> (error + Coins option) option"
  and collect_combinations_uncached ::
    "nat \<Rightarrow> Coins \<Rightarrow> int \<Rightarrow> Coins \<Rightarrow> Coins list \<Rightarrow> (error + Coins list) option"
where
  "find_best_combination_uncached 0 coin remaining_weight options = None"
| "find_best_combination_uncached (Suc fuel) coin remaining_weight options =
     (case hash coin of
        Inl e \<Rightarrow> Some (Inl e)
      | Inr p \<Rightarrow>
          if weight coin > remaining_weight then Some (Inr None)
          else if weight coin = remaining_weight then Some (Inr (Some [coin]))
          else
            (case collect_combinations_uncached fuel options (remaining_weight - weight coin)
                    options [] of
               None \<Rightarrow> None
             | Some (Inl e) \<Rightarrow> Some (Inl e)
             | Some (Inr combinations) \<Rightarrow>
                 if length combinations = 0 then Some (Inr (Some [coin]))
                 else
                   (case best_value combinations of
                      Inl e \<Rightarrow> Some (Inl e)
                    | Inr coins \<Rightarrow> Some (Inr (Some (coins @ [coin]))))))"
| "collect_combinations_uncached fuel [] remaining_weight options combinations =
     Some (Inr combinations)"
| "collect_combinations_uncached fuel (next_coin # todo) remaining_weight options combinations =
     (case find_best_combination_uncached fuel next_coin remaining_weight options of
        None \<Rightarrow> None
      | Some (Inl e) \<Rightarrow> Some (Inl e)
      | Some (Inr None) \<Rightarrow>
          collect_combinations_uncached fuel todo remaining_weight options combinations
      | Some (Inr (Some combination)) \<Rightarrow>
          collect_combinations_uncached fuel todo remaining_weight options
            (combinations @ [copy_combination combination]))"
  by pat_completeness auto
termination
  by (relation "inv_image (less_than <*lex*> less_than)
        (\<lambda>x. case x of
           Inl (fuel, coin, remaining_weight, options) \<Rightarrow> (fuel, 0)
         | Inr (fuel, todo, remaining_weight, options, combinations) \<Rightarrow>
             (fuel, Suc (length todo)))") auto

subsection \<open>Notions used in the statements\<close>

text \<open>A coin whose value is a key of \<open>value_to_prime\<close>.\<close>

definition known_denomination :: "Coin \<Rightarrow> bool" where
  "known_denomination coin = (value coin \<in> set (map fst value_to_prime))"

text \<open>A catalogue of known denominations, each of positive weight.\<close>

definition valid_catalog :: "Coins \<Rightarrow> bool" where
  "valid_catalog options = list_all (\<lambda>coin. known_denomination coin \<and> 0 < weight coin) options"

text \<open>
  A number that a 32-bit \<^verbatim>\<open>int\<close> holds, and a combination whose value sums to such a
  number after each coin, so that the sum of \<^verbatim>\<open>best_value\<close> does not wrap.
\<close>

definition fits_int :: "int \<Rightarrow> bool" where
  "fits_int i = (- (2 ^ 31) \<le> i \<and> i < 2 ^ 31)"

fun no_overflow_from :: "int \<Rightarrow> Coins \<Rightarrow> bool" where
  "no_overflow_from subtotal [] = fits_int subtotal"
| "no_overflow_from subtotal (coin # coins) =
     (fits_int subtotal \<and> no_overflow_from (subtotal + value coin) coins)"

definition no_overflow :: "Coins \<Rightarrow> bool" where
  "no_overflow combination = no_overflow_from 0 combination"



definition returns :: "(error + Coins option \<times> cache) option \<Rightarrow> bool" where
  "returns outcome = (case outcome of Some (Inr (result, cache)) \<Rightarrow> True | _ \<Rightarrow> False)"


text \<open>The same list for the search without the cache, over a part \<open>todo\<close> of the catalogue.\<close>

definition sub_combinations_uncached :: "nat \<Rightarrow> int \<Rightarrow> Coins \<Rightarrow> Coins \<Rightarrow> Coins list" where
  "sub_combinations_uncached fuel remaining_weight options todo =
     concat (map (\<lambda>next_coin.
        case find_best_combination_uncached fuel next_coin remaining_weight options of
          Some (Inr (Some combination)) \<Rightarrow> [combination]
        | _ \<Rightarrow> []) todo)"

subsection \<open>The run of \<^verbatim>\<open>main\<close>\<close>

text \<open>
  \<^verbatim>\<open>main\<close> fixes the budget and the catalogue (lines 62 to 72), sorts the catalogue by value
  per weight (which permutes it), and calls the search once with the null coin.
\<close>

definition maximum_weight :: int where
  "maximum_weight = 300"

definition coin_options :: Coins where
  "coin_options =
     [\<lparr>value = 1, weight = 26\<rparr>, \<lparr>value = 2, weight = 52\<rparr>, \<lparr>value = 5, weight = 28\<rparr>,
      \<lparr>value = 10, weight = 56\<rparr>, \<lparr>value = 20, weight = 113\<rparr>, \<lparr>value = 50, weight = 155\<rparr>,
      \<lparr>value = 100, weight = 90\<rparr>, \<lparr>value = 200, weight = 66\<rparr>]"

text \<open>
  The calls of \<^verbatim>\<open>find_best_combination\<close> in a run that starts with the null coin and a
  budget: the first call, and, from a call whose coin is lighter than the remaining weight,
  the call of line 162 for each coin of the catalogue. (A call that throws ends the run;
  with a catalogue of known denominations none does.)
\<close>

inductive called :: "Coins \<Rightarrow> int \<Rightarrow> Coin \<Rightarrow> int \<Rightarrow> bool"
  for options :: Coins and budget :: int
where
  first_call: "called options budget root budget"
| next_call: "called options budget coin remaining_weight \<Longrightarrow>
     weight coin < remaining_weight \<Longrightarrow> next_coin \<in> set options \<Longrightarrow>
     called options budget next_coin (remaining_weight - weight coin)"

section \<open>Lemmas\<close>

subsection \<open>The copy and the sort\<close>

lemma copy_combination_id: "copy_combination coins = coins"
  by (induction coins) (simp_all add: copy_combination_def)

lemma takeWhile_short:
  assumes "zs \<noteq> []" "\<not> P (last zs)"
  shows "length (takeWhile P zs) < length zs"
proof -
  have "last zs \<in> set zs" using assms(1) by simp
  then have "\<exists>z\<in>set zs. \<not> P z" using assms(2) by blast
  then show ?thesis by (induction zs) auto
qed

lemma unguarded_linear_insert_hd:
  assumes "prefix \<noteq> []" "\<not> cmp x (hd prefix)"
  shows "hd (unguarded_linear_insert cmp prefix x) = hd prefix"
proof -
  have "length (takeWhile (cmp x) (rev prefix)) < length (rev prefix)"
    using assms by (intro takeWhile_short) (simp_all add: last_rev)
  then have "0 < length prefix - length (takeWhile (cmp x) (rev prefix))" by simp
  then show ?thesis
    using assms(1) by (simp add: unguarded_linear_insert_def Let_def hd_append)
qed

lemma unguarded_linear_insert_set:
  "set (unguarded_linear_insert cmp prefix x) = insert x (set prefix)"
proof -
  have "set (take n prefix) \<union> set (drop n prefix) = set prefix" for n
    by (metis append_take_drop_id set_append)
  then show ?thesis
    by (auto simp: unguarded_linear_insert_def Let_def)
qed

lemma insertion_step_hd:
  assumes "prefix \<noteq> []"
  shows "hd (insertion_step cmp prefix x) = (if cmp x (hd prefix) then x else hd prefix)"
proof (cases prefix)
  case Nil
  then show ?thesis using assms by simp
next
  case (Cons first rest)
  show ?thesis
  proof (cases "cmp x first")
    case True
    then show ?thesis using Cons by (simp add: insertion_step_def)
  next
    case False
    then have "hd (unguarded_linear_insert cmp prefix x) = hd prefix"
      using Cons by (intro unguarded_linear_insert_hd) simp_all
    then show ?thesis using False Cons by (simp add: insertion_step_def)
  qed
qed

lemma insertion_step_set: "set (insertion_step cmp prefix x) = insert x (set prefix)"
  by (simp add: insertion_step_def unguarded_linear_insert_set split: list.split)

lemma std_sort_snoc: "std_sort cmp (xs @ [x]) = insertion_step cmp (std_sort cmp xs) x"
  by (simp add: std_sort_def)

lemma std_sort_set: "set (std_sort cmp xs) = set xs"
  by (induction xs rule: rev_induct) (simp_all add: std_sort_snoc insertion_step_set, simp add: std_sort_def)

lemma std_sort_Nil_iff: "std_sort cmp xs = [] \<longleftrightarrow> xs = []"
  by (metis std_sort_set set_empty)

text \<open>The front of the sorted vector: the last element whose key no element exceeds.\<close>

lemma std_sort_front:
  assumes "xs \<noteq> []"
  shows "hd (std_sort value_ge xs) = last (filter (\<lambda>x. \<forall>y\<in>set xs. fst y \<le> fst x) xs)
       \<and> (\<forall>y\<in>set xs. fst y \<le> fst (hd (std_sort value_ge xs)))"
  using assms
proof (induction xs rule: rev_induct)
  case Nil
  then show ?case by simp
next
  case (snoc x xs)
  show ?case
  proof (cases "xs = []")
    case True
    then show ?thesis by (simp add: std_sort_def insertion_step_def)
  next
    case False
    let ?ys = "std_sort value_ge xs"
    let ?m = "hd ?ys"
    have ys: "?ys \<noteq> []" using False by (simp add: std_sort_Nil_iff)
    have IH1: "?m = last (filter (\<lambda>x. \<forall>y\<in>set xs. fst y \<le> fst x) xs)"
      and IH2: "\<forall>y\<in>set xs. fst y \<le> fst ?m"
      using snoc.IH[OF False] by blast+
    have m_in: "?m \<in> set xs" using ys std_sort_set[of value_ge xs] by (metis list.set_sel(1))
    show ?thesis
    proof (cases "value_ge x ?m")
      case True
      then have hd_new: "hd (std_sort value_ge (xs @ [x])) = x"
        using ys by (simp add: std_sort_snoc insertion_step_hd)
      have top: "\<forall>y\<in>set (xs @ [x]). fst y \<le> fst x"
        using True IH2 by (auto simp: value_ge_def)
      then show ?thesis using hd_new by simp
    next
      case False
      then have hd_new: "hd (std_sort value_ge (xs @ [x])) = ?m"
        using ys by (simp add: std_sort_snoc insertion_step_hd)
      have lt: "fst x < fst ?m" using False by (simp add: value_ge_def)
      have not_top: "\<not> (\<forall>y\<in>set (xs @ [x]). fst y \<le> fst x)"
        using lt m_in by force
      have same: "filter (\<lambda>z. \<forall>y\<in>set (xs @ [x]). fst y \<le> fst z) xs
                = filter (\<lambda>z. \<forall>y\<in>set xs. fst y \<le> fst z) xs"
      proof (rule filter_cong[OF refl])
        fix z assume "z \<in> set xs"
        show "(\<forall>y\<in>set (xs @ [x]). fst y \<le> fst z) = (\<forall>y\<in>set xs. fst y \<le> fst z)"
        proof
          assume "\<forall>y\<in>set (xs @ [x]). fst y \<le> fst z"
          then show "\<forall>y\<in>set xs. fst y \<le> fst z" by simp
        next
          assume a: "\<forall>y\<in>set xs. fst y \<le> fst z"
          then have "fst ?m \<le> fst z" using m_in by blast
          then have "fst x \<le> fst z" using lt by simp
          then show "\<forall>y\<in>set (xs @ [x]). fst y \<le> fst z" using a by simp
        qed
      qed
      have "\<forall>y\<in>set (xs @ [x]). fst y \<le> fst ?m" using IH2 lt by auto
      then show ?thesis using hd_new IH1 not_top same by simp
    qed
  qed
qed

lemma best_value_front:
  assumes "combinations \<noteq> []"
  shows "best_value combinations =
           Inr (last (filter (\<lambda>c. \<forall>c'\<in>set combinations. total_value c' \<le> total_value c) combinations))"
proof -
  let ?ps = "map (\<lambda>c. (total_value c, c)) combinations"
  have ne: "?ps \<noteq> []" using assms by simp
  have front: "hd (std_sort value_ge ?ps) = last (filter (\<lambda>x. \<forall>y\<in>set ?ps. fst y \<le> fst x) ?ps)"
    using std_sort_front[OF ne] by blast
  have filt: "filter (\<lambda>x. \<forall>y\<in>set ?ps. fst y \<le> fst x) ?ps
            = map (\<lambda>c. (total_value c, c)) (filter (\<lambda>c. \<forall>c'\<in>set combinations. total_value c' \<le> total_value c) combinations)"
    by (simp add: filter_map comp_def)
  obtain b where b: "b \<in> set combinations" "\<forall>c'\<in>set combinations. total_value c' \<le> total_value b"
  proof -
    have "finite (total_value ` set combinations)" "total_value ` set combinations \<noteq> {}"
      using assms by simp_all
    then have "Max (total_value ` set combinations) \<in> total_value ` set combinations"
      by (rule Max_in)
    then obtain b where "b \<in> set combinations" "total_value b = Max (total_value ` set combinations)"
      by auto
    then show ?thesis using that[of b] by simp
  qed
  then have fne: "filter (\<lambda>c. \<forall>c'\<in>set combinations. total_value c' \<le> total_value c) combinations \<noteq> []"
    by (auto simp: filter_empty_conv)
  have "snd (hd (std_sort value_ge ?ps)) = last (filter (\<lambda>c. \<forall>c'\<in>set combinations. total_value c' \<le> total_value c) combinations)"
    using front filt fne by (simp add: last_map)
  moreover have "std_sort value_ge ?ps \<noteq> []" using ne by (simp add: std_sort_Nil_iff)
  ultimately show ?thesis
    by (cases "std_sort value_ge ?ps") (simp_all add: best_value_def copy_combination_id)
qed

subsection \<open>The cache stays empty\<close>

text \<open>From the empty cache, the search is the search without the cache.\<close>

lemma find_empty_cache:
  "find_best_combination ub fuel coin rw options empty_cache =
     map_option (map_sum id (\<lambda>r. (r, empty_cache))) (find_best_combination_uncached fuel coin rw options)"
  "collect_combinations ub fuel todo rw options empty_cache acc =
     map_option (map_sum id (\<lambda>cs. (cs, empty_cache))) (collect_combinations_uncached fuel todo rw options acc)"
proof (induction fuel coin rw options and fuel todo rw options acc
       rule: find_best_combination_uncached_collect_combinations_uncached.induct)
  case (1 coin remaining_weight options)
  show ?case by simp
next
  case (2 fuel coin remaining_weight options)
  show ?case
  proof (cases "hash coin")
    case (Inl e)
    then show ?thesis by simp
  next
    case (Inr p)
    have miss: "empty_cache (fingerprint ub p remaining_weight) = None"
      by (simp add: empty_cache_def)
    show ?thesis
    proof (cases "weight coin < remaining_weight")
      case False
      then show ?thesis using Inr miss by simp
    next
      case True
      have lt: "\<not> remaining_weight < weight coin" "weight coin \<noteq> remaining_weight"
        using True by simp_all
      note IH = "2.IH"[OF Inr lt]
      show ?thesis
        using Inr miss True IH
        by (simp split: option.split sum.split)
    qed
  qed
next
  case (3 fuel remaining_weight options combinations)
  show ?case by simp
next
  case (4 fuel next_coin todo remaining_weight options combinations)
  show ?case
  proof (cases "find_best_combination_uncached fuel next_coin remaining_weight options")
    case None
    then show ?thesis using "4.IH"(1) by simp
  next
    case (Some out)
    show ?thesis
    proof (cases out)
      case (Inl e)
      then show ?thesis using Some "4.IH"(1) by simp
    next
      case (Inr r)
      show ?thesis
      proof (cases r)
        case None
        then show ?thesis using Some Inr "4.IH"(1) "4.IH"(2)[OF Some Inr None] by simp
      next
        case (Some comb)
        then show ?thesis
          using \<open>find_best_combination_uncached fuel next_coin remaining_weight options = Some out\<close>
            Inr "4.IH"(1) "4.IH"(3)[OF \<open>find_best_combination_uncached fuel next_coin remaining_weight options = Some out\<close> Inr Some]
          by simp
      qed
    qed
  qed
qed

subsection \<open>The loop over the catalogue, and fuel\<close>

lemma sub_combinations_uncached_Nil [simp]:
  "sub_combinations_uncached fuel rw options [] = []"
  by (simp add: sub_combinations_uncached_def)

lemma sub_combinations_uncached_Cons:
  "sub_combinations_uncached fuel rw options (c # todo) =
     (case find_best_combination_uncached fuel c rw options of
        Some (Inr (Some combination)) \<Rightarrow> [combination]
      | _ \<Rightarrow> []) @ sub_combinations_uncached fuel rw options todo"
  by (simp add: sub_combinations_uncached_def)

lemma collect_uncached_iff:
  "collect_combinations_uncached fuel todo rw options acc = Some (Inr combs) \<longleftrightarrow>
     (\<forall>c\<in>set todo. \<exists>r. find_best_combination_uncached fuel c rw options = Some (Inr r))
     \<and> combs = acc @ sub_combinations_uncached fuel rw options todo"
proof (induction todo arbitrary: acc)
  case Nil
  then show ?case by auto
next
  case (Cons c todo)
  show ?case
  proof (cases "find_best_combination_uncached fuel c rw options")
    case None
    then show ?thesis by simp
  next
    case (Some out)
    show ?thesis
    proof (cases out)
      case (Inl e)
      then show ?thesis using Some by simp
    next
      case (Inr r)
      show ?thesis
      proof (cases r)
        case None
        then show ?thesis
          using Some Inr Cons.IH[of acc] by (simp add: sub_combinations_uncached_Cons)
      next
        case (Some comb)
        then show ?thesis
          using \<open>find_best_combination_uncached fuel c rw options = Some out\<close> Inr
            Cons.IH[of "acc @ [comb]"]
          by (simp add: sub_combinations_uncached_Cons copy_combination_id)
      qed
    qed
  qed
qed

lemma collect_uncached_not_returned:
  assumes "c \<in> set todo" "\<forall>r. find_best_combination_uncached fuel c rw options \<noteq> Some (Inr r)"
  shows "collect_combinations_uncached fuel todo rw options acc \<noteq> Some (Inr combs)"
  using assms collect_uncached_iff by blast

lemma uncached_raise:
  "hash coin = Inl e \<Longrightarrow> find_best_combination_uncached (Suc fuel) coin rw options = Some (Inl e)"
  by simp

lemma uncached_over:
  "hash coin = Inr p \<Longrightarrow> rw < weight coin \<Longrightarrow>
     find_best_combination_uncached (Suc fuel) coin rw options = Some (Inr None)"
  by simp

lemma uncached_fit:
  "hash coin = Inr p \<Longrightarrow> weight coin = rw \<Longrightarrow>
     find_best_combination_uncached (Suc fuel) coin rw options = Some (Inr (Some [coin]))"
  by simp

lemma uncached_under:
  "hash coin = Inr p \<Longrightarrow> weight coin < rw \<Longrightarrow>
     find_best_combination_uncached (Suc fuel) coin rw options =
       (case collect_combinations_uncached fuel options (rw - weight coin) options [] of
          None \<Rightarrow> None
        | Some (Inl e) \<Rightarrow> Some (Inl e)
        | Some (Inr combinations) \<Rightarrow>
            if combinations = [] then Some (Inr (Some [coin]))
            else (case best_value combinations of
                    Inl e \<Rightarrow> Some (Inl e)
                  | Inr coins \<Rightarrow> Some (Inr (Some (coins @ [coin])))))"
  by (simp split: option.split sum.split)

declare find_best_combination_uncached.simps(2) [simp del]



subsection \<open>What a call returns\<close>

lemma maximal_exists:
  assumes "combinations \<noteq> []"
  shows "filter (\<lambda>c. \<forall>c'\<in>set combinations. total_value c' \<le> total_value c) combinations \<noteq> []"
proof -
  have "finite (total_value ` set combinations)" "total_value ` set combinations \<noteq> {}"
    using assms by simp_all
  then have "Max (total_value ` set combinations) \<in> total_value ` set combinations"
    by (rule Max_in)
  then obtain b where "b \<in> set combinations" "total_value b = Max (total_value ` set combinations)"
    by auto
  then have "b \<in> set combinations \<and> (\<forall>c'\<in>set combinations. total_value c' \<le> total_value b)"
    by simp
  then show ?thesis by (auto simp: filter_empty_conv)
qed

lemma best_value_maximal:
  assumes "combinations \<noteq> []"
  shows "\<exists>best. best_value combinations = Inr best \<and> best \<in> set combinations
           \<and> (\<forall>c\<in>set combinations. total_value c \<le> total_value best)"
proof -
  let ?top = "filter (\<lambda>c. \<forall>c'\<in>set combinations. total_value c' \<le> total_value c) combinations"
  have "last ?top \<in> set ?top" using maximal_exists[OF assms] by (rule last_in_set)
  then have "last ?top \<in> set combinations \<and> (\<forall>c\<in>set combinations. total_value c \<le> total_value (last ?top))"
    unfolding set_filter by blast
  then show ?thesis using best_value_front[OF assms] by blast
qed


lemma uncached_returns_hash:
  assumes "find_best_combination_uncached fuel coin rw options = Some (Inr r)"
  shows "\<exists>p. hash coin = Inr p"
proof (cases fuel)
  case 0
  then show ?thesis using assms by simp
next
  case (Suc n)
  then show ?thesis using assms by (cases "hash coin") (simp_all add: uncached_raise)
qed

lemma uncached_under_iff:
  assumes "hash coin = Inr p" "weight coin < rw"
  shows "find_best_combination_uncached (Suc fuel) coin rw options = Some (Inr r) \<longleftrightarrow>
     (\<forall>c\<in>set options. \<exists>r'. find_best_combination_uncached fuel c (rw - weight coin) options = Some (Inr r'))
     \<and> (\<exists>comb. r = Some (comb @ [coin]) \<and>
          (let subs = sub_combinations_uncached fuel (rw - weight coin) options options
           in if subs = [] then comb = [] else best_value subs = Inr comb))"
proof (cases "collect_combinations_uncached fuel options (rw - weight coin) options []")
  case None
  then have "\<not> (\<forall>c\<in>set options. \<exists>r'. find_best_combination_uncached fuel c (rw - weight coin) options = Some (Inr r'))"
    using collect_uncached_iff[of fuel options "rw - weight coin" options "[]"] by auto
  then show ?thesis using None assms by (simp add: uncached_under)
next
  case (Some out)
  show ?thesis
  proof (cases out)
    case (Inl e)
    then have "\<not> (\<forall>c\<in>set options. \<exists>r'. find_best_combination_uncached fuel c (rw - weight coin) options = Some (Inr r'))"
      using Some collect_uncached_iff[of fuel options "rw - weight coin" options "[]"] by auto
    then show ?thesis using Some Inl assms by (simp add: uncached_under)
  next
    case (Inr combs)
    then have all: "\<forall>c\<in>set options. \<exists>r'. find_best_combination_uncached fuel c (rw - weight coin) options = Some (Inr r')"
      and combs: "combs = sub_combinations_uncached fuel (rw - weight coin) options options"
      using Some collect_uncached_iff[of fuel options "rw - weight coin" options "[]" combs] by auto
    show ?thesis
    proof (cases "combs = []")
      case True
      then show ?thesis using Some Inr assms all combs by (auto simp: uncached_under)
    next
      case False
      then obtain best where "best_value combs = Inr best" using best_value_maximal by blast
      then show ?thesis using Some Inr assms all combs False by (auto simp: uncached_under Let_def)
    qed
  qed
qed




lemma uncached_None_iff:
  assumes "find_best_combination_uncached fuel coin rw options = Some (Inr r)"
  shows "r = None \<longleftrightarrow> rw < weight coin"
proof (cases fuel)
  case 0
  then show ?thesis using assms by simp
next
  case (Suc n)
  obtain p where p: "hash coin = Inr p" using uncached_returns_hash[OF assms] by blast
  consider "rw < weight coin" | "weight coin = rw" | "weight coin < rw" by linarith
  then show ?thesis
  proof cases
    case 1
    then show ?thesis using assms p Suc by (simp add: uncached_over)
  next
    case 2
    then show ?thesis using assms p Suc by (auto simp: uncached_fit)
  next
    case 3
    then show ?thesis using assms Suc uncached_under_iff[OF p 3, of n options r] by auto
  qed
qed

lemma known_denomination_hash: "known_denomination coin \<longleftrightarrow> (\<exists>p. hash coin = Inr p)"
proof -
  have "(\<exists>p. hash coin = Inr p) \<longleftrightarrow> map_of value_to_prime (value coin) \<noteq> None"
    by (auto simp: hash_def split: option.splits)
  also have "\<dots> \<longleftrightarrow> value coin \<in> fst ` set value_to_prime"
    by (simp add: map_of_eq_None_iff)
  finally show ?thesis by (simp add: known_denomination_def)
qed

lemma valid_catalog_mem:
  "valid_catalog options \<Longrightarrow> c \<in> set options \<Longrightarrow> known_denomination c \<and> 0 < weight c"
  by (simp add: valid_catalog_def list_all_iff)

lemma uncached_returns_catalog:
  assumes "valid_catalog options"
  shows "c \<in> set options \<Longrightarrow> nat rw \<le> fuel \<Longrightarrow> 1 \<le> fuel \<Longrightarrow>
           \<exists>r. find_best_combination_uncached fuel c rw options = Some (Inr r)"
proof (induction fuel arbitrary: c rw)
  case 0
  then show ?case by simp
next
  case (Suc fuel)
  have c: "known_denomination c" "0 < weight c"
    using valid_catalog_mem[OF assms Suc.prems(1)] by simp_all
  then obtain p where p: "hash c = Inr p" using known_denomination_hash by blast
  consider "rw < weight c" | "weight c = rw" | "weight c < rw" by linarith
  then show ?case
  proof cases
    case 1
    then show ?thesis using p by (simp add: uncached_over)
  next
    case 2
    then show ?thesis using p by (simp add: uncached_fit)
  next
    case 3
    have fuel: "nat (rw - weight c) \<le> fuel" "1 \<le> fuel"
      using 3 c(2) Suc.prems(2) by linarith+
    have all: "\<forall>c'\<in>set options. \<exists>r'. find_best_combination_uncached fuel c' (rw - weight c) options = Some (Inr r')"
      using Suc.IH fuel by blast
    let ?subs = "sub_combinations_uncached fuel (rw - weight c) options options"
    show ?thesis
    proof (cases "?subs = []")
      case True
      then show ?thesis using uncached_under_iff[OF p 3, of fuel options "Some ([] @ [c])"] all
        by (auto simp: Let_def)
    next
      case False
      then obtain best where best: "best_value ?subs = Inr best" using best_value_maximal by blast
      then show ?thesis using uncached_under_iff[OF p 3, of fuel options "Some (best @ [c])"] all False
        by (auto simp: Let_def)
    qed
  qed
qed

lemma uncached_returns:
  assumes "valid_catalog options" "hash coin = Inr p" "nat (rw - weight coin) + 2 \<le> fuel"
  shows "\<exists>r. find_best_combination_uncached fuel coin rw options = Some (Inr r)"
proof -
  obtain n where n: "fuel = Suc n" using assms(3) by (cases fuel) simp_all
  consider "rw < weight coin" | "weight coin = rw" | "weight coin < rw" by linarith
  then show ?thesis
  proof cases
    case 1
    then show ?thesis using assms(2) n by (simp add: uncached_over)
  next
    case 2
    then show ?thesis using assms(2) n by (simp add: uncached_fit)
  next
    case 3
    have fuel: "nat (rw - weight coin) \<le> n" "1 \<le> n" using assms(3) n by linarith+
    have all: "\<forall>c'\<in>set options. \<exists>r'. find_best_combination_uncached n c' (rw - weight coin) options = Some (Inr r')"
      using uncached_returns_catalog[OF assms(1)] fuel by blast
    let ?subs = "sub_combinations_uncached n (rw - weight coin) options options"
    show ?thesis
    proof (cases "?subs = []")
      case True
      then show ?thesis using uncached_under_iff[OF assms(2) 3, of n options "Some ([] @ [coin])"] all n
        by (auto simp: Let_def)
    next
      case False
      then obtain best where best: "best_value ?subs = Inr best" using best_value_maximal by blast
      then show ?thesis using uncached_under_iff[OF assms(2) 3, of n options "Some (best @ [coin])"] all False n
        by (auto simp: Let_def)
    qed
  qed
qed

subsection \<open>The order of the catalogue\<close>




subsection \<open>The cache after a call\<close>

lemma cache_unchanged:
  "find_best_combination ub fuel coin rw options cache = Some (Inr (result, cache')) \<Longrightarrow> cache' = cache"
  "collect_combinations ub fuel todo rw options cache acc = Some (Inr (combs, cache'')) \<Longrightarrow> cache'' = cache"
proof (induction ub fuel coin rw options cache and ub fuel todo rw options cache acc
       arbitrary: result cache' and combs cache''
       rule: find_best_combination_collect_combinations.induct)
  case (1 ub coin remaining_weight options cache)
  then show ?case by simp
next
  case (2 ub fuel coin remaining_weight options cache)
  show ?case
  proof (cases "hash coin")
    case (Inl e)
    then show ?thesis using "2.prems" by simp
  next
    case (Inr p)
    show ?thesis
    proof (cases "cache (fingerprint ub p remaining_weight)")
      case (Some hit)
      then show ?thesis using "2.prems" Inr by simp
    next
      case None
      show ?thesis
      proof (cases "weight coin < remaining_weight")
        case False
        then show ?thesis using "2.prems" Inr None by (auto split: if_splits)
      next
        case True
        have lt: "\<not> remaining_weight < weight coin" "weight coin \<noteq> remaining_weight"
          using True by simp_all
        from "2.prems" Inr None True obtain combs where
          "collect_combinations ub fuel options (remaining_weight - weight coin) options cache [] = Some (Inr (combs, cache'))"
          by (auto split: option.splits sum.splits if_splits)
        then show ?thesis using "2.IH"[OF Inr None lt] by blast
      qed
    qed
  qed
next
  case (3 ub fuel remaining_weight options cache combinations)
  then show ?case by simp
next
  case (4 ub fuel next_coin todo remaining_weight options cache combinations)
  from "4.prems" obtain r c1 where
    f: "find_best_combination ub fuel next_coin remaining_weight options cache = Some (Inr (r, c1))"
    by (auto split: option.splits sum.splits)
  have c1: "c1 = cache" using "4.IH"(1)[OF f] .
  show ?case
  proof (cases r)
    case None
    then have "collect_combinations ub fuel todo remaining_weight options c1 combinations = Some (Inr (combs, cache''))"
      using "4.prems" f by simp
    then have "cache'' = c1" using "4.IH"(2)[OF f refl _ None] by blast
    then show ?thesis using c1 by simp
  next
    case (Some comb)
    then have "collect_combinations ub fuel todo remaining_weight options c1 (combinations @ [copy_combination comb]) = Some (Inr (combs, cache''))"
      using "4.prems" f by simp
    then have "cache'' = c1" using "4.IH"(3)[OF f refl _ Some] by blast
    then show ?thesis using c1 by simp
  qed
qed

lemma find_returns_iff:
  "find_best_combination ub fuel coin rw options empty_cache = Some (Inr (result, cache')) \<longleftrightarrow>
     find_best_combination_uncached fuel coin rw options = Some (Inr result) \<and> cache' = empty_cache"
proof (cases "find_best_combination_uncached fuel coin rw options")
  case None
  then show ?thesis by (simp add: find_empty_cache(1))
next
  case (Some out)
  then show ?thesis by (cases out) (auto simp: find_empty_cache(1))
qed

subsection \<open>The sum of \<^verbatim>\<open>best_value\<close> and the total value\<close>

lemma int_add_fits:
  assumes "fits_int (a + b)"
  shows "int_add a b = a + b"
proof -
  have "sint (word_of_int (a + b) :: 32 word) = signed_take_bit (LENGTH(32) - 1) (a + b)"
    by (rule sint_sbintrunc')
  also have "\<dots> = a + b"
    using assms by (intro signed_take_bit_int_eq_self) (simp_all add: fits_int_def)
  finally show ?thesis by (simp only: int_add_def)
qed

lemma accumulate_no_overflow:
  "no_overflow_from subtotal coins \<Longrightarrow>
     foldl (\<lambda>subtotal coin. int_add subtotal (value coin)) subtotal coins
       = subtotal + value_sum coins"
proof (induction coins arbitrary: subtotal)
  case Nil
  then show ?case by (simp add: value_sum_def)
next
  case (Cons coin coins)
  have next_fits: "fits_int (subtotal + value coin)"
    using Cons.prems by (cases coins) simp_all
  have "no_overflow_from (subtotal + value coin) coins" using Cons.prems by simp
  then show ?case
    using Cons.IH[of "subtotal + value coin"] next_fits
    by (simp add: int_add_fits value_sum_def)
qed

lemma total_value_no_overflow: "no_overflow coins \<Longrightarrow> total_value coins = value_sum coins"
  using accumulate_no_overflow[of 0 coins] by (simp add: no_overflow_def total_value_def)








lemma sub_combinations_uncached_length:
  "length (sub_combinations_uncached fuel rw options todo) \<le> length todo"
  by (induction todo)
     (auto simp: sub_combinations_uncached_Cons split: option.splits sum.splits)

lemma best_value_maximal_sum:
  assumes "combinations \<noteq> []" "\<forall>c\<in>set combinations. total_value c = value_sum c"
  shows "\<exists>best. best_value combinations = Inr best \<and> best \<in> set combinations
           \<and> (\<forall>c\<in>set combinations. value_sum c \<le> value_sum best)"
proof -
  obtain best where best: "best_value combinations = Inr best" "best \<in> set combinations"
    "\<forall>c\<in>set combinations. total_value c \<le> total_value best"
    using best_value_maximal[OF assms(1)] by blast
  then have "\<forall>c\<in>set combinations. value_sum c \<le> value_sum best"
    using assms(2) by fastforce
  then show ?thesis using best by blast
qed

lemma best_value_front_sum:
  assumes "combinations \<noteq> []" "\<forall>c\<in>set combinations. total_value c = value_sum c"
  shows "best_value combinations =
           Inr (last (filter (\<lambda>c. \<forall>c'\<in>set combinations. value_sum c' \<le> value_sum c) combinations))"
proof -
  have "filter (\<lambda>c. \<forall>c'\<in>set combinations. total_value c' \<le> total_value c) combinations
      = filter (\<lambda>c. \<forall>c'\<in>set combinations. value_sum c' \<le> value_sum c) combinations"
    using assms(2) by (intro filter_cong) auto
  then show ?thesis using best_value_front[OF assms(1)] by simp
qed

subsection \<open>Runs on small inputs\<close>

lemmas eval_best_value = best_value_def std_sort_def insertion_step_def unguarded_linear_insert_def
  value_ge_def total_value_def copy_combination_def int_add_fits fits_int_def

lemma example_run:
  "find_best_combination ub 3 root 30 [\<lparr>value = 5, weight = 28\<rparr>] empty_cache =
     Some (Inr (Some [\<lparr>value = 5, weight = 28\<rparr>, root], empty_cache))"
  by (simp add: numeral_eq_Suc hash_def value_to_prime_def root_def empty_cache_def eval_best_value)

lemma example_raise:
  "find_best_combination ub 2 root 20 [\<lparr>value = 3, weight = 10\<rparr>] empty_cache = Some (Inl OutOfRange)"
  by (simp add: numeral_eq_Suc hash_def value_to_prime_def root_def empty_cache_def)



subsection \<open>From the search without the cache back to the search\<close>



lemma hash_root: "hash root = Inr 0"
  by (simp add: hash_def root_def value_to_prime_def)

lemma known_root: "known_denomination root"
  by (simp add: known_denomination_def root_def value_to_prime_def)

lemma find_returns_combination:
  assumes "valid_catalog options" "known_denomination coin" "weight coin \<le> rw"
    "nat (rw - weight coin) + 2 \<le> fuel"
  shows "\<exists>comb. find_best_combination ub fuel coin rw options empty_cache
            = Some (Inr (Some comb, empty_cache))"
proof -
  obtain p where p: "hash coin = Inr p" using assms(2) known_denomination_hash by blast
  obtain r where r: "find_best_combination_uncached fuel coin rw options = Some (Inr r)"
    using uncached_returns[OF assms(1) p assms(4)] by blast
  then have "r \<noteq> None" using uncached_None_iff[OF r] assms(3) by simp
  then obtain comb where "r = Some comb" by blast
  then show ?thesis using r by (simp add: find_returns_iff del: find_best_combination.simps)
qed

lemma zero_weight_coin:
  "find_best_combination_uncached fuel \<lparr>value = 1, weight = 0\<rparr> 1 [\<lparr>value = 1, weight = 0\<rparr>] = None"
proof (induction fuel)
  case 0
  show ?case by simp
next
  case (Suc fuel)
  have h: "hash \<lparr>value = 1, weight = 0\<rparr> = Inr 2" by (simp add: hash_def value_to_prime_def)
  have "collect_combinations_uncached fuel [\<lparr>value = 1, weight = 0\<rparr>] (1 - weight \<lparr>value = 1, weight = 0\<rparr>)
          [\<lparr>value = 1, weight = 0\<rparr>] [] = None"
    using Suc.IH by simp
  then show ?case using uncached_under[OF h, of 1 fuel "[\<lparr>value = 1, weight = 0\<rparr>]"] by simp
qed

lemma zero_weight_root:
  "find_best_combination ub fuel root 1 [\<lparr>value = 1, weight = 0\<rparr>] empty_cache = None"
proof (cases fuel)
  case 0
  then show ?thesis by simp
next
  case (Suc n)
  have "collect_combinations_uncached n [\<lparr>value = 1, weight = 0\<rparr>] (1 - weight root)
          [\<lparr>value = 1, weight = 0\<rparr>] [] = None"
    using zero_weight_coin[of n] by (simp add: root_def)
  then have "find_best_combination_uncached (Suc n) root 1 [\<lparr>value = 1, weight = 0\<rparr>] = None"
    using uncached_under[OF hash_root, of 1 n "[\<lparr>value = 1, weight = 0\<rparr>]"] by (simp add: root_def)
  then show ?thesis using Suc by (simp add: find_empty_cache(1) del: find_best_combination.simps)
qed

section \<open>The claims\<close>

text \<open>
  In the statements, \<open>ub\<close> is any result of the out-of-range conversion in the
  fingerprint, and the search starts from the empty cache, as in the program.
\<close>






text \<open>
  \<^bold>\<open>C3.\<close> The claim (after a miss, the cache holds the returned result under the
  fingerprint) does not hold of the code: \<^verbatim>\<open>find_best_combination\<close> has no statement that
  stores into \<^verbatim>\<open>cache\<close>, so a call leaves the cache as it found it. The run below misses,
  returns \<^verbatim>\<open>[Coin(5,10)]\<close>, and leaves the cache empty.
\<close>

theorem cache_never_written:
  "find_best_combination ub fuel coin rw options cache = Some (Inr (result, cache')) \<Longrightarrow>
     cache' = cache"
  by (rule cache_unchanged(1))

theorem cache_never_written_witness:
  "find_best_combination (\<lambda>d. 0) 1 \<lparr>value = 5, weight = 10\<rparr> 10 [\<lparr>value = 5, weight = 10\<rparr>] empty_cache
     = Some (Inr (Some [\<lparr>value = 5, weight = 10\<rparr>], empty_cache))
   \<and> empty_cache (fingerprint (\<lambda>d. 0) 5 10) = None"
proof -
  have run: "find_best_combination (\<lambda>d. 0) 1 \<lparr>value = 5, weight = 10\<rparr> 10 [\<lparr>value = 5, weight = 10\<rparr>] empty_cache
     = Some (Inr (Some [\<lparr>value = 5, weight = 10\<rparr>], Map.empty))"
    by (simp add: hash_def value_to_prime_def empty_cache_def)
  have "Map.empty = empty_cache" using cache_never_written[OF run] .
  then show ?thesis using run by (simp add: empty_cache_def)
qed

text \<open>
  \<^bold>\<open>C4.\<close> From the empty cache, the search with the cache and the search without it have
  the same outcome on every input: the same exception, the same returned combination (hence
  the same total value), or both run out of the same fuel.
\<close>

theorem cache_transparent:
  "map_option (map_sum (\<lambda>e. e) fst) (find_best_combination ub fuel coin rw options empty_cache)
     = find_best_combination_uncached fuel coin rw options"
proof (cases "find_best_combination_uncached fuel coin rw options")
  case None
  then show ?thesis by (simp add: find_empty_cache(1))
next
  case (Some out)
  then show ?thesis by (cases out) (simp_all add: find_empty_cache(1))
qed

text \<open>
  \<^bold>\<open>C5.\<close> As stated (for every non-empty list of candidates) the claim fails:
  \<^verbatim>\<open>best_value\<close> sums the values of a candidate in an \<^verbatim>\<open>int\<close>, and a sum that does not fit
  wraps around. What holds: for a non-empty list of at most \<open>sort_threshold\<close> candidates,
  each with value sums that fit an \<^verbatim>\<open>int\<close>, \<^verbatim>\<open>best_value\<close> returns a candidate of the list
  whose total value is at least the total value of every candidate.
\<close>

theorem best_value_maximum:
  assumes "combinations \<noteq> []" "length combinations \<le> sort_threshold"
    "list_all no_overflow combinations"
  shows "\<exists>best. best_value combinations = Inr best \<and> best \<in> set combinations
           \<and> (\<forall>c\<in>set combinations. value_sum c \<le> value_sum best)"
proof -
  have "\<forall>c\<in>set combinations. total_value c = value_sum c"
    using assms(3) by (simp add: list_all_iff total_value_no_overflow)
  then show ?thesis using assms(1) by (rule best_value_maximal_sum[rotated])
qed

theorem best_value_maximum_witness:
  "[[\<lparr>value = 1, weight = 26\<rparr>], [\<lparr>value = 5, weight = 28\<rparr>], [\<lparr>value = 2, weight = 52\<rparr>]] \<noteq> []
   \<and> length [[\<lparr>value = 1, weight = 26\<rparr>], [\<lparr>value = 5, weight = 28\<rparr>], [\<lparr>value = 2, weight = 52\<rparr>]]
        \<le> sort_threshold
   \<and> list_all no_overflow [[\<lparr>value = 1, weight = 26\<rparr>], [\<lparr>value = 5, weight = 28\<rparr>], [\<lparr>value = 2, weight = 52\<rparr>]]
   \<and> (\<exists>best. best_value [[\<lparr>value = 1, weight = 26\<rparr>], [\<lparr>value = 5, weight = 28\<rparr>], [\<lparr>value = 2, weight = 52\<rparr>]] = Inr best
     \<and> best \<in> set [[\<lparr>value = 1, weight = 26\<rparr>], [\<lparr>value = 5, weight = 28\<rparr>], [\<lparr>value = 2, weight = 52\<rparr>]]
     \<and> value_sum [\<lparr>value = 1, weight = 26\<rparr>] \<le> value_sum best
     \<and> value_sum [\<lparr>value = 5, weight = 28\<rparr>] \<le> value_sum best
     \<and> value_sum [\<lparr>value = 2, weight = 52\<rparr>] \<le> value_sum best)"
proof -
  let ?cs = "[[\<lparr>value = 1, weight = 26\<rparr>], [\<lparr>value = 5, weight = 28\<rparr>], [\<lparr>value = 2, weight = 52\<rparr>]]"
  have ne: "?cs \<noteq> []" by simp
  have few: "length ?cs \<le> sort_threshold" by (simp add: sort_threshold_def)
  have fit: "list_all no_overflow ?cs" by (simp add: no_overflow_def fits_int_def)
  show ?thesis using best_value_maximum[OF ne few fit] ne few fit by simp
qed

text \<open>
  The candidate \<^verbatim>\<open>[Coin(2147483647,1), Coin(1,1)]\<close> has total value 2147483648 and the
  candidate \<^verbatim>\<open>[Coin(5,1)]\<close> has total value 5; the \<^verbatim>\<open>int\<close> sum of the first wraps to
  -2147483648, and \<^verbatim>\<open>best_value\<close> returns the second.
\<close>

theorem best_value_maximum_counterexample:
  "value_sum [\<lparr>value = 2147483647, weight = 1\<rparr>, \<lparr>value = 1, weight = 1\<rparr>] = 2147483648
   \<and> value_sum [\<lparr>value = 5, weight = 1\<rparr>] = 5
   \<and> total_value [\<lparr>value = 2147483647, weight = 1\<rparr>, \<lparr>value = 1, weight = 1\<rparr>] = - 2147483648
   \<and> best_value [[\<lparr>value = 2147483647, weight = 1\<rparr>, \<lparr>value = 1, weight = 1\<rparr>],
                  [\<lparr>value = 5, weight = 1\<rparr>]]
       = Inr [\<lparr>value = 5, weight = 1\<rparr>]"
proof -
  have wrap: "int_add 2147483647 1 = - 2147483648"
    by (simp add: int_add_def int_word_sint)
  have first: "int_add 0 2147483647 = 2147483647" "int_add 0 5 = 5"
    by (simp_all add: int_add_fits fits_int_def)
  show ?thesis
    by (simp add: value_sum_def total_value_def wrap first best_value_def std_sort_def
          insertion_step_def unguarded_linear_insert_def value_ge_def copy_combination_def)
qed

text \<open>
  \<^bold>\<open>C6.\<close> As stated (among candidates tied at the maximum, \<^verbatim>\<open>best_value\<close> returns the
  first in encounter order) the claim fails: \<^verbatim>\<open>std::sort\<close> is not stable, and with the
  comparison \<^verbatim>\<open>>=\<close> a later element that ties with the front is moved in front of it.
  What holds: for a non-empty list of at most \<open>sort_threshold\<close> candidates, each with
  value sums that fit an \<^verbatim>\<open>int\<close>, \<^verbatim>\<open>best_value\<close> returns the last candidate, in encounter
  order, whose total value no candidate exceeds.
\<close>

theorem best_value_last_maximal:
  assumes "combinations \<noteq> []" "length combinations \<le> sort_threshold"
    "list_all no_overflow combinations"
  shows "best_value combinations =
           Inr (last (filter (\<lambda>c. \<forall>c'\<in>set combinations. value_sum c' \<le> value_sum c) combinations))"
proof -
  have "\<forall>c\<in>set combinations. total_value c = value_sum c"
    using assms(3) by (simp add: list_all_iff total_value_no_overflow)
  then show ?thesis using assms(1) by (rule best_value_front_sum[rotated])
qed

theorem best_value_last_maximal_witness:
  "[[\<lparr>value = 2, weight = 52\<rparr>], [\<lparr>value = 1, weight = 26\<rparr>, \<lparr>value = 1, weight = 26\<rparr>], [\<lparr>value = 1, weight = 26\<rparr>]] \<noteq> []
   \<and> length [[\<lparr>value = 2, weight = 52\<rparr>], [\<lparr>value = 1, weight = 26\<rparr>, \<lparr>value = 1, weight = 26\<rparr>], [\<lparr>value = 1, weight = 26\<rparr>]]
        \<le> sort_threshold
   \<and> list_all no_overflow
        [[\<lparr>value = 2, weight = 52\<rparr>], [\<lparr>value = 1, weight = 26\<rparr>, \<lparr>value = 1, weight = 26\<rparr>], [\<lparr>value = 1, weight = 26\<rparr>]]
   \<and> best_value [[\<lparr>value = 2, weight = 52\<rparr>], [\<lparr>value = 1, weight = 26\<rparr>, \<lparr>value = 1, weight = 26\<rparr>], [\<lparr>value = 1, weight = 26\<rparr>]]
     = Inr [\<lparr>value = 1, weight = 26\<rparr>, \<lparr>value = 1, weight = 26\<rparr>]"
proof -
  let ?cs = "[[\<lparr>value = 2, weight = 52\<rparr>], [\<lparr>value = 1, weight = 26\<rparr>, \<lparr>value = 1, weight = 26\<rparr>], [\<lparr>value = 1, weight = 26\<rparr>]]"
  have ne: "?cs \<noteq> []" by simp
  have few: "length ?cs \<le> sort_threshold" by (simp add: sort_threshold_def)
  have fit: "list_all no_overflow ?cs" by (simp add: no_overflow_def fits_int_def)
  show ?thesis using best_value_last_maximal[OF ne few fit] ne few fit by (simp add: value_sum_def)
qed

text \<open>
  The candidates \<^verbatim>\<open>[Coin(2,52)]\<close> and \<^verbatim>\<open>[Coin(1,26), Coin(1,26)]\<close> both have total value 2.
  The first of the two in encounter order is \<^verbatim>\<open>[Coin(2,52)]\<close>; \<^verbatim>\<open>best_value\<close> returns the second.
\<close>

theorem best_value_first_counterexample:
  "hd (filter (\<lambda>c. value_sum c = 2)
        [[\<lparr>value = 2, weight = 52\<rparr>], [\<lparr>value = 1, weight = 26\<rparr>, \<lparr>value = 1, weight = 26\<rparr>]])
     = [\<lparr>value = 2, weight = 52\<rparr>]
   \<and> value_sum [\<lparr>value = 1, weight = 26\<rparr>, \<lparr>value = 1, weight = 26\<rparr>] = 2
   \<and> best_value [[\<lparr>value = 2, weight = 52\<rparr>], [\<lparr>value = 1, weight = 26\<rparr>, \<lparr>value = 1, weight = 26\<rparr>]]
     = Inr [\<lparr>value = 1, weight = 26\<rparr>, \<lparr>value = 1, weight = 26\<rparr>]"
  by (simp add: eval_best_value value_sum_def)

text \<open>
  \<^bold>\<open>C7.\<close> The claim (distinct subproblems of the run of \<^verbatim>\<open>main\<close> get distinct
  fingerprints) does not hold of the code. The run reaches remaining weight 6 (by
  \<^verbatim>\<open>Coin(1,26)\<close>, \<^verbatim>\<open>Coin(20,113)\<close>, \<^verbatim>\<open>Coin(50,155)\<close>) and there calls the search for
  \<^verbatim>\<open>Coin(200,66)\<close> and for \<^verbatim>\<open>Coin(100,90)\<close>. Their primes are 19 and 17, and the double
  addition of either to \<open>6 ^ 23 = 789730223053602816\<close> returns \<open>6 ^ 23\<close>: doubles of that
  size are 128 apart. The same happens in the first layer, at remaining weight 300, where
  the sum is moreover outside the range of \<^verbatim>\<open>unsigned long\<close>.
\<close>

theorem fingerprint_collision:
  "called coin_options maximum_weight \<lparr>value = 200, weight = 66\<rparr> 6
   \<and> called coin_options maximum_weight \<lparr>value = 100, weight = 90\<rparr> 6
   \<and> hash \<lparr>value = 200, weight = 66\<rparr> = Inr 19
   \<and> hash \<lparr>value = 100, weight = 90\<rparr> = Inr 17
   \<and> fingerprint ub 19 6 = 789730223053602816
   \<and> fingerprint ub 17 6 = 789730223053602816
   \<and> called coin_options maximum_weight \<lparr>value = 200, weight = 66\<rparr> 300
   \<and> called coin_options maximum_weight \<lparr>value = 100, weight = 90\<rparr> 300
   \<and> fingerprint ub 19 300 = fingerprint ub 17 300"
proof -
  have c0: "called coin_options maximum_weight root 300"
    using first_call[of coin_options maximum_weight] by (simp add: maximum_weight_def)
  have top: "called coin_options maximum_weight next_coin 300" if "next_coin \<in> set coin_options"
    for next_coin
    using next_call[OF c0 _ that] by (simp add: root_def)
  have c1: "called coin_options maximum_weight \<lparr>value = 1, weight = 26\<rparr> 300"
    by (rule top) (simp add: coin_options_def)
  have c2: "called coin_options maximum_weight \<lparr>value = 20, weight = 113\<rparr> 274"
    using next_call[OF c1, of "\<lparr>value = 20, weight = 113\<rparr>"] by (simp add: coin_options_def)
  have c3: "called coin_options maximum_weight \<lparr>value = 50, weight = 155\<rparr> 161"
    using next_call[OF c2, of "\<lparr>value = 50, weight = 155\<rparr>"] by (simp add: coin_options_def)
  have c4: "called coin_options maximum_weight \<lparr>value = 200, weight = 66\<rparr> 6"
    using next_call[OF c3, of "\<lparr>value = 200, weight = 66\<rparr>"] by (simp add: coin_options_def)
  have c5: "called coin_options maximum_weight \<lparr>value = 100, weight = 90\<rparr> 6"
    using next_call[OF c3, of "\<lparr>value = 100, weight = 90\<rparr>"] by (simp add: coin_options_def)
  have t1: "called coin_options maximum_weight \<lparr>value = 200, weight = 66\<rparr> 300"
    by (rule top) (simp add: coin_options_def)
  have t2: "called coin_options maximum_weight \<lparr>value = 100, weight = 90\<rparr> 300"
    by (rule top) (simp add: coin_options_def)
  have h: "hash \<lparr>value = 200, weight = 66\<rparr> = Inr 19" "hash \<lparr>value = 100, weight = 90\<rparr> = Inr 17"
    by (simp_all add: hash_def value_to_prime_def)
  have f6: "fingerprint ub 19 6 = 789730223053602816" "fingerprint ub 17 6 = 789730223053602816"
    by (simp_all add: fingerprint_def pow23_def round_double_def round_nat_def Let_def to_ulong_def)
  have f300: "fingerprint ub 19 300 = fingerprint ub 17 300"
    by (simp add: fingerprint_def pow23_def round_double_def round_nat_def Let_def to_ulong_def)
  show ?thesis using c4 c5 t1 t2 h f6 f300 by simp
qed



text \<open>
  \<^bold>\<open>C9.\<close> As stated (for every catalogue the top-level call returns a combination) the
  claim fails: with a coin of an unknown denomination in the catalogue the call throws,
  and with a coin of weight zero in the catalogue it does not return at all.
  What holds: a call that returns, returns no combination exactly when the coin is heavier
  than the remaining weight; a call with a coin of a known denomination that is heavier
  than the remaining weight returns no combination; and for a catalogue of at most
  \<open>sort_threshold\<close> coins of known denominations and positive weight and a budget of at
  least zero, the call with the null coin returns a combination, given fuel for the depth
  of the recursion.
\<close>

theorem search_none_iff:
  "(find_best_combination ub fuel coin rw options empty_cache = Some (Inr (result, cache')) \<longrightarrow>
      (result = None \<longleftrightarrow> rw < weight coin))
   \<and> (known_denomination coin \<and> rw < weight coin \<longrightarrow>
        find_best_combination ub (Suc fuel) coin rw options empty_cache
          = Some (Inr (None, empty_cache)))
   \<and> (valid_catalog options \<and> length options \<le> sort_threshold
        \<and> 0 \<le> budget \<and> nat budget + 2 \<le> fuel \<longrightarrow>
        (\<exists>comb. find_best_combination ub fuel root budget options empty_cache
                   = Some (Inr (Some comb, empty_cache))))"
proof (intro conjI impI)
  assume "find_best_combination ub fuel coin rw options empty_cache = Some (Inr (result, cache'))"
  then have "find_best_combination_uncached fuel coin rw options = Some (Inr result)"
    by (simp add: find_returns_iff del: find_best_combination.simps)
  then show "result = None \<longleftrightarrow> rw < weight coin" by (rule uncached_None_iff)
next
  assume a: "known_denomination coin \<and> rw < weight coin"
  then obtain p where "hash coin = Inr p" using known_denomination_hash by blast
  then show "find_best_combination ub (Suc fuel) coin rw options empty_cache
          = Some (Inr (None, empty_cache))"
    using a by (simp add: find_returns_iff uncached_over del: find_best_combination.simps)
next
  assume a: "valid_catalog options \<and> length options \<le> sort_threshold
        \<and> 0 \<le> budget \<and> nat budget + 2 \<le> fuel"
  then have "weight root \<le> budget" "nat (budget - weight root) + 2 \<le> fuel"
    by (simp_all add: root_def)
  then show "\<exists>comb. find_best_combination ub fuel root budget options empty_cache
                   = Some (Inr (Some comb, empty_cache))"
    using a find_returns_combination[OF _ known_root] by blast
qed

theorem search_none_iff_witness:
  "find_best_combination (\<lambda>d. 0) 3 root 30 [\<lparr>value = 5, weight = 28\<rparr>] empty_cache
      = Some (Inr (Some [\<lparr>value = 5, weight = 28\<rparr>, root], empty_cache))
   \<and> \<not> 30 < weight root
   \<and> known_denomination \<lparr>value = 5, weight = 28\<rparr> \<and> 20 < weight \<lparr>value = 5, weight = 28\<rparr>
   \<and> find_best_combination (\<lambda>d. 0) (Suc 0) \<lparr>value = 5, weight = 28\<rparr> 20 [\<lparr>value = 5, weight = 28\<rparr>] empty_cache
      = Some (Inr (None, empty_cache))
   \<and> valid_catalog [\<lparr>value = 5, weight = 28\<rparr>] \<and> length [\<lparr>value = 5, weight = 28\<rparr>] \<le> sort_threshold
   \<and> (0::int) \<le> 30 \<and> nat 30 + 2 \<le> 32
   \<and> (\<exists>comb. find_best_combination (\<lambda>d. 0) 32 root 30 [\<lparr>value = 5, weight = 28\<rparr>] empty_cache
                   = Some (Inr (Some comb, empty_cache)))"
proof -
  have run: "find_best_combination (\<lambda>d. 0) 3 root 30 [\<lparr>value = 5, weight = 28\<rparr>] empty_cache
      = Some (Inr (Some [\<lparr>value = 5, weight = 28\<rparr>, root], empty_cache))"
    by (rule example_run)
  have fits: "\<not> 30 < weight root"
    using search_none_iff[where fuel = 3 and coin = root and rw = 30 and ub = "\<lambda>d. 0"
        and options = "[\<lparr>value = 5, weight = 28\<rparr>]"] run by blast
  have heavy: "known_denomination \<lparr>value = 5, weight = 28\<rparr> \<and> 20 < weight \<lparr>value = 5, weight = 28\<rparr>"
    by (simp add: known_denomination_def value_to_prime_def)
  have none: "find_best_combination (\<lambda>d. 0) (Suc 0) \<lparr>value = 5, weight = 28\<rparr> 20 [\<lparr>value = 5, weight = 28\<rparr>] empty_cache
      = Some (Inr (None, empty_cache))"
    using search_none_iff[where fuel = 0 and coin = "\<lparr>value = 5, weight = 28\<rparr>" and rw = 20
        and ub = "\<lambda>d. 0" and options = "[\<lparr>value = 5, weight = 28\<rparr>]"] heavy by blast
  have hyps: "valid_catalog [\<lparr>value = 5, weight = 28\<rparr>] \<and> length [\<lparr>value = 5, weight = 28\<rparr>] \<le> sort_threshold
      \<and> (0::int) \<le> 30 \<and> nat 30 + 2 \<le> 32"
    by (simp add: valid_catalog_def known_denomination_def value_to_prime_def sort_threshold_def)
  have "\<exists>comb. find_best_combination (\<lambda>d. 0) 32 root 30 [\<lparr>value = 5, weight = 28\<rparr>] empty_cache
                   = Some (Inr (Some comb, empty_cache))"
    using search_none_iff[where fuel = 32 and budget = 30 and ub = "\<lambda>d. 0"
        and options = "[\<lparr>value = 5, weight = 28\<rparr>]"] hyps by blast
  then show ?thesis using run fits heavy none hyps by blast
qed

text \<open>
  The catalogue \<^verbatim>\<open>[Coin(3,10)]\<close> with budget 20: the call for the null coin tries
  \<^verbatim>\<open>Coin(3,10)\<close>, whose hash throws \<^verbatim>\<open>std::out_of_range\<close>. The catalogue
  \<^verbatim>\<open>[Coin(1,0)]\<close> with budget 1: the call for \<^verbatim>\<open>Coin(1,0)\<close> with remaining weight 1 calls
  itself with the same arguments, so no amount of fuel lets the top-level call return.
\<close>

theorem search_returns_counterexample:
  "(0::int) \<le> 20
   \<and> find_best_combination (\<lambda>d. 0) 2 root 20 [\<lparr>value = 3, weight = 10\<rparr>] empty_cache
       = Some (Inl OutOfRange)
   \<and> (0::int) \<le> 1
   \<and> (\<forall>fuel. find_best_combination (\<lambda>d. 0) fuel root 1 [\<lparr>value = 1, weight = 0\<rparr>] empty_cache = None)"
  by (simp add: example_raise zero_weight_root)

text \<open>
  \<^bold>\<open>C10.\<close> \<^verbatim>\<open>hash\<close> is partial. It returns a prime for a coin whose value is one of
  0, 1, 2, 5, 10, 20, 50, 100, 200. For a coin of any other value it throws
  \<^verbatim>\<open>std::out_of_range\<close>, and so does \<^verbatim>\<open>find_best_combination\<close> called with such a coin,
  whatever the other arguments and the cache. A call that has to try the catalogue (the
  coin is lighter than the remaining weight) returns only when every coin of the
  catalogue has one of those values.
\<close>

theorem hash_partial:
  "(value coin \<in> {0, 1, 2, 5, 10, 20, 50, 100, 200} \<longrightarrow> (\<exists>p. hash coin = Inr p))
   \<and> (value coin \<notin> {0, 1, 2, 5, 10, 20, 50, 100, 200} \<longrightarrow>
        hash coin = Inl OutOfRange
        \<and> find_best_combination ub (Suc fuel) coin rw options cache = Some (Inl OutOfRange))
   \<and> (weight coin < rw \<and> returns (find_best_combination ub fuel' coin rw options empty_cache) \<longrightarrow>
        (\<forall>c\<in>set options. value c \<in> {0, 1, 2, 5, 10, 20, 50, 100, 200}))"
proof (intro conjI impI)
  assume "value coin \<in> {0, 1, 2, 5, 10, 20, 50, 100, 200}"
  then have "known_denomination coin"
    by (simp add: known_denomination_def value_to_prime_def)
  then show "\<exists>p. hash coin = Inr p" by (simp add: known_denomination_hash)
next
  assume bad: "value coin \<notin> {0, 1, 2, 5, 10, 20, 50, 100, 200}"
  then have "map_of value_to_prime (value coin) = None"
    by (simp add: value_to_prime_def)
  then show "hash coin = Inl OutOfRange" by (simp add: hash_def)
  then show "find_best_combination ub (Suc fuel) coin rw options cache = Some (Inl OutOfRange)"
    by simp
next
  assume a: "weight coin < rw \<and> returns (find_best_combination ub fuel' coin rw options empty_cache)"
  then obtain r c' where "find_best_combination ub fuel' coin rw options empty_cache = Some (Inr (r, c'))"
    by (auto simp: returns_def split: option.splits sum.splits)
  then have u: "find_best_combination_uncached fuel' coin rw options = Some (Inr r)"
    by (simp add: find_returns_iff)
  then obtain p where p: "hash coin = Inr p" using uncached_returns_hash by blast
  obtain n where n: "fuel' = Suc n" using u by (cases fuel') simp_all
  have all: "\<forall>c\<in>set options. \<exists>r'. find_best_combination_uncached n c (rw - weight coin) options = Some (Inr r')"
    using u a uncached_under_iff[OF p, of rw n options r] unfolding n by blast
  show "\<forall>c\<in>set options. value c \<in> {0, 1, 2, 5, 10, 20, 50, 100, 200}"
  proof
    fix c assume "c \<in> set options"
    then obtain r' where "find_best_combination_uncached n c (rw - weight coin) options = Some (Inr r')"
      using all by blast
    then have "known_denomination c" using uncached_returns_hash known_denomination_hash by blast
    then show "value c \<in> {0, 1, 2, 5, 10, 20, 50, 100, 200}"
      by (simp add: known_denomination_def value_to_prime_def)
  qed
qed

theorem hash_partial_witness:
  "(\<exists>p. hash \<lparr>value = 5, weight = 28\<rparr> = Inr p)
   \<and> hash \<lparr>value = 3, weight = 10\<rparr> = Inl OutOfRange
   \<and> find_best_combination (\<lambda>d. 0) (Suc 0) \<lparr>value = 3, weight = 10\<rparr> 5 [] empty_cache = Some (Inl OutOfRange)
   \<and> weight root < 30
   \<and> returns (find_best_combination (\<lambda>d. 0) 3 root 30 [\<lparr>value = 5, weight = 28\<rparr>] empty_cache)
   \<and> value \<lparr>value = 5, weight = 28\<rparr> \<in> {0, 1, 2, 5, 10, 20, 50, 100, 200}"
proof -
  have run: "returns (find_best_combination (\<lambda>d. 0) 3 root 30 [\<lparr>value = 5, weight = 28\<rparr>] empty_cache)"
    by (simp add: example_run returns_def)
  have light: "weight root < 30" by (simp add: root_def)
  have known: "\<exists>p. hash \<lparr>value = 5, weight = 28\<rparr> = Inr p"
    using hash_partial[of "\<lparr>value = 5, weight = 28\<rparr>"] by simp
  have unknown: "hash \<lparr>value = 3, weight = 10\<rparr> = Inl OutOfRange
      \<and> find_best_combination (\<lambda>d. 0) (Suc 0) \<lparr>value = 3, weight = 10\<rparr> 5 [] empty_cache = Some (Inl OutOfRange)"
    using hash_partial[of "\<lparr>value = 3, weight = 10\<rparr>" "\<lambda>d. 0" 0 5 "[]" empty_cache] by simp
  have "\<forall>c\<in>set [\<lparr>value = 5, weight = 28\<rparr>]. value c \<in> {0, 1, 2, 5, 10, 20, 50, 100, 200}"
    using hash_partial[where coin = root and rw = 30 and ub = "\<lambda>d. 0" and fuel' = 3
          and options = "[\<lparr>value = 5, weight = 28\<rparr>]"] run light by blast
  then show ?thesis using run light known unknown by simp
qed

end
